theory Spec2Isabelle
  imports Main "HOL-Library.Word"
begin

section \<open>Data model of zipf.go\<close>

text \<open>
  Go's \<open>int64\<close> is a 64-bit word read as two's complement (\<open>sint\<close>); \<open>+\<close> wraps.
  Go's \<open>int\<close> (the field \<open>limit\<close> and the loop counter of \<open>Report\<close>) is modelled as
  \<open>int\<close>: the counter is incremented once per map entry, and the number of entries of a
  Go map is itself an \<open>int\<close>, so that increment never wraps.
  Go strings are byte sequences: \<open>string\<close>.
\<close>

type_synonym int64 = "64 word"

datatype error =
    EmptyDir      \<comment> \<open>\<open>errors.New("empty dir")\<close>\<close>
  | EmptyWord     \<comment> \<open>\<open>errors.New("empty word")\<close>\<close>
  | IOError string  \<comment> \<open>an error of the operating system or of a writer\<close>

record Term =
  Word :: string
  Count :: int64

text \<open>
  The struct \<open>Zipf\<close>. The field \<open>out\<close> holds the state of the \<open>io.Writer\<close>; the
  embedded \<open>sync.RWMutex\<close> plays no part in a sequential run and appears in the
  interleaving model further down.
\<close>

record 'w Zipf =
  path :: string
  limit :: int
  out :: 'w
  symbols :: bool
  words :: "string \<rightharpoonup> int64"
  counts :: "int64 \<rightharpoonup> string"
  collection :: "Term list"

section \<open>New\<close>

definition New :: "string \<Rightarrow> int \<Rightarrow> bool \<Rightarrow> 'w \<Rightarrow> error + 'w Zipf" where
  "New dir lim syms output =
     (if dir = '''' then Inl EmptyDir
      else Inr \<lparr> path = dir, limit = lim, out = output, symbols = syms,
                 words = Map.empty, counts = Map.empty, collection = [] \<rparr>)"

section \<open>Add\<close>

text \<open>
  \<open>Add\<close> mutates the receiver in place and returns an error value; the model returns
  the receiver after the call together with the error (\<open>None\<close> is \<open>nil\<close>).
  \<open>count, ok := z.words[s]\<close> yields the zero value and \<open>false\<close> for a missing key.
\<close>

definition Add :: "'w Zipf \<Rightarrow> string \<Rightarrow> 'w Zipf \<times> error option" where
  "Add z s =
     (if s = '''' then (z, Some EmptyWord)
      else
        let (count, ok) = (case words z s of None \<Rightarrow> (0, False) | Some c \<Rightarrow> (c, True));
            w1 = (if \<not> ok then (words z)(s \<mapsto> 1) else words z);
            w2 = w1(s \<mapsto> count + 1)
        in (z\<lparr>words := w2\<rparr>, None))"

text \<open>The loop \<open>for _, w := range ws { if err := z.Add(w); err != nil { return err } }\<close>
  of \<open>Walk\<close>: it returns at the first failing \<open>Add\<close>.\<close>

fun AddAll :: "'w Zipf \<Rightarrow> string list \<Rightarrow> 'w Zipf \<times> error option" where
  "AddAll z [] = (z, None)"
| "AddAll z (w # ws) =
     (case Add z w of
        (z', Some e) \<Rightarrow> (z', Some e)
      | (z', None) \<Rightarrow> AddAll z' ws)"

section \<open>Report\<close>

subsection \<open>The formatted write \<open>fmt.Fprintf(z.out, "%s %d\n", x.Word, x.Count)\<close>\<close>

definition digit :: "nat \<Rightarrow> char" where
  "digit d = ''0123456789'' ! d"

function dec_nat :: "nat \<Rightarrow> string" where
  "dec_nat n = (if n < 10 then [digit n] else dec_nat (n div 10) @ [digit (n mod 10)])"
  by pat_completeness auto
termination
  by (relation "measure id") auto

declare dec_nat.simps [simp del]

text \<open>The verb \<open>%d\<close> on an \<open>int64\<close>: the signed value in decimal.\<close>

definition fmt_d :: "int \<Rightarrow> string" where
  "fmt_d i = (if i < 0 then CHR ''-'' # dec_nat (nat (- i)) else dec_nat (nat i))"

definition format_line :: "Term \<Rightarrow> string" where
  "format_line x = Word x @ '' '' @ fmt_d (sint (Count x)) @ [CHR 0x0A]"

text \<open>
  An \<open>io.Writer\<close>: its \<open>Write\<close> method takes the sink's state and the bytes and returns
  the new state, the number of bytes written and an error. \<open>Fprintf\<close> formats the line
  and hands it to \<open>Write\<close> in one call.
\<close>

type_synonym 'w writer = "'w \<Rightarrow> string \<Rightarrow> 'w \<times> nat \<times> error option"

definition Fprintf :: "'w writer \<Rightarrow> 'w \<Rightarrow> Term \<Rightarrow> 'w \<times> nat \<times> error option" where
  "Fprintf wr w x = wr w (format_line x)"

text \<open>Two writers: one that records every write it receives, one that always fails.\<close>

definition record_write :: "string list writer" where
  "record_write w s = (w @ [s], length s, None)"

definition broken_write :: "string list writer" where
  "broken_write w s = (w, 0, Some (IOError ''closed pipe''))"

subsection \<open>\<open>sort.Sort(ByCountAsc(z.collection))\<close>\<close>

text \<open>
  Modelled from the spec: the type \<open>ByCountAsc\<close> and its methods are not in zipf.go. The
  spec says the selected entries are sorted ascending by count and that the comparator
  orders by count only, so \<open>Less(i, j)\<close> compares the two counts as \<open>int64\<close>.
\<close>

definition ByCountAsc_Less :: "Term \<Rightarrow> Term \<Rightarrow> bool" where
  "ByCountAsc_Less a b = (sint (Count a) < sint (Count b))"

text \<open>
  \<open>sort.Sort\<close> of the standard library orders the data by \<open>Less\<close> and promises nothing
  on the order of equal elements. Here it is an insertion sort; the order it gives to
  equal counts is that of its input, which \<open>Report\<close> takes from the iteration order of
  the map, itself arbitrary.
\<close>

fun insert_Less :: "('a \<Rightarrow> 'a \<Rightarrow> bool) \<Rightarrow> 'a \<Rightarrow> 'a list \<Rightarrow> 'a list" where
  "insert_Less lt x [] = [x]"
| "insert_Less lt x (y # ys) =
     (if lt y x then y # insert_Less lt x ys else x # y # ys)"

fun Sort :: "('a \<Rightarrow> 'a \<Rightarrow> bool) \<Rightarrow> 'a list \<Rightarrow> 'a list" where
  "Sort lt [] = []"
| "Sort lt (x # xs) = insert_Less lt x (Sort lt xs)"

subsection \<open>The body of \<open>Report\<close>\<close>

text \<open>
  \<open>for k, c := range z.words\<close> visits every entry of the map once, in an order the
  language leaves open. The order is a parameter: the list \<open>kvs\<close> of the entries as the
  iterator yields them, which \<open>enumerates\<close> the map.
\<close>

definition enumerates :: "('k \<times> 'v) list \<Rightarrow> ('k \<rightharpoonup> 'v) \<Rightarrow> bool" where
  "enumerates kvs m = (distinct (map fst kvs) \<and> map_of kvs = m)"

text \<open>The first loop: \<open>i++; if i > z.limit { continue }; z.collection = append(...)\<close>.\<close>

fun select :: "int \<Rightarrow> int \<Rightarrow> (string \<times> int64) list \<Rightarrow> Term list \<Rightarrow> Term list" where
  "select lim i [] coll = coll"
| "select lim i ((k, c) # kvs) coll =
     (let i' = i + 1 in
      if i' > lim then select lim i' kvs coll
      else select lim i' kvs (coll @ [\<lparr>Word = k, Count = c\<rparr>]))"

text \<open>The second loop: one \<open>Fprintf\<close> per element; its two results are dropped.\<close>

fun write_all :: "'w writer \<Rightarrow> 'w \<Rightarrow> Term list \<Rightarrow> 'w" where
  "write_all wr w [] = w"
| "write_all wr w (x # xs) =
     (case Fprintf wr w x of (w', n, err) \<Rightarrow> write_all wr w' xs)"

definition Report :: "'w writer \<Rightarrow> (string \<times> int64) list \<Rightarrow> 'w Zipf \<Rightarrow> 'w Zipf \<times> error option" where
  "Report wr kvs z =
     (let coll = select (limit z) 0 kvs (collection z);
          srt = Sort ByCountAsc_Less coll;
          w = write_all wr (out z) srt
      in (z\<lparr>out := w, collection := srt\<rparr>, None))"

section \<open>Walk\<close>

text \<open>
  What \<open>os.Open\<close>, the \<open>bufio.Scanner\<close> and \<open>Close\<close> give for one path: the error of
  opening, the lines the scanner yields before it stops, the scanner's error and the
  error of closing.
\<close>

record File =
  open_error :: "error option"
  scanned :: "string list"
  scan_error :: "error option"
  close_error :: "error option"

definition readLines :: "File \<Rightarrow> string list \<times> error option" where
  "readLines f =
     (case open_error f of
        Some e \<Rightarrow> ([], Some e)
      | None \<Rightarrow>
          (let lines = filter (\<lambda>line. \<not> length line < 1) (scanned f) in
           case close_error f of
             Some e \<Rightarrow> ([], Some e)
           | None \<Rightarrow> (lines, scan_error f)))"

text \<open>
  \<open>SplitWord\<close> and \<open>SplitSymbol\<close> are not in zipf.go: they are parameters of the
  model, functions from a line to an error or a list of tokens.
\<close>

type_synonym splitter = "string \<Rightarrow> error + string list"

text \<open>The loop \<open>for i := range lines\<close> inside the callback of \<open>Walk\<close>.\<close>

fun lines_loop :: "splitter \<Rightarrow> splitter \<Rightarrow> 'w Zipf \<Rightarrow> string list \<Rightarrow> 'w Zipf \<times> error option" where
  "lines_loop SplitWord SplitSymbol z [] = (z, None)"
| "lines_loop SplitWord SplitSymbol z (line # rest) =
     (if length line < 1 then lines_loop SplitWord SplitSymbol z rest
      else
        case SplitWord line of
          Inl err \<Rightarrow> lines_loop SplitWord SplitSymbol z rest
        | Inr ws \<Rightarrow>
            (case AddAll z ws of
               (z1, Some err) \<Rightarrow> (z1, Some err)
             | (z1, None) \<Rightarrow>
                 if symbols z1 then
                   (case SplitSymbol line of
                      Inl err \<Rightarrow> lines_loop SplitWord SplitSymbol z1 rest
                    | Inr ss \<Rightarrow>
                        (case AddAll z1 ss of
                           (z2, Some err) \<Rightarrow> (z2, Some err)
                         | (z2, None) \<Rightarrow> lines_loop SplitWord SplitSymbol z2 rest))
                 else lines_loop SplitWord SplitSymbol z1 rest))"

text \<open>
  One call of the function that \<open>Walk\<close> passes to \<open>filepath.Walk\<close>: \<open>info\<close> is
  \<open>None\<close> for a nil \<open>os.FileInfo\<close>, and \<open>content\<close> is what reading the path gives.
\<close>

datatype FileInfo = FileInfo (IsDir: bool)

record Entry =
  name :: string
  info :: "FileInfo option"
  content :: File

definition walkFn :: "splitter \<Rightarrow> splitter \<Rightarrow> 'w Zipf \<Rightarrow> Entry \<Rightarrow> 'w Zipf \<times> error option" where
  "walkFn SplitWord SplitSymbol z e =
     (if (case info e of None \<Rightarrow> False | Some fi \<Rightarrow> IsDir fi) then (z, None)
      else
        case readLines (content e) of
          (lines, Some err) \<Rightarrow> (z, Some err)
        | (lines, None) \<Rightarrow> lines_loop SplitWord SplitSymbol z lines)"

text \<open>
  \<open>filepath.Walk\<close> calls the function on every file and directory of the tree, in
  lexical order, and stops with the first error the function returns (the function
  never returns \<open>SkipDir\<close>). The tree is the list of the entries in that order.
\<close>

fun Walk :: "splitter \<Rightarrow> splitter \<Rightarrow> 'w Zipf \<Rightarrow> Entry list \<Rightarrow> 'w Zipf \<times> error option" where
  "Walk SplitWord SplitSymbol z [] = (z, None)"
| "Walk SplitWord SplitSymbol z (e # es) =
     (case walkFn SplitWord SplitSymbol z e of
        (z', Some err) \<Rightarrow> (z', Some err)
      | (z', None) \<Rightarrow> Walk SplitWord SplitSymbol z' es)"

section \<open>Run\<close>

definition Run :: "splitter \<Rightarrow> splitter \<Rightarrow> 'w writer \<Rightarrow> Entry list \<Rightarrow> (string \<times> int64) list \<Rightarrow>
    'w Zipf \<Rightarrow> 'w Zipf \<times> error option" where
  "Run SplitWord SplitSymbol wr tree kvs z =
     (case Walk SplitWord SplitSymbol z tree of
        (z1, Some err) \<Rightarrow> (z1, Some err)
      | (z1, None) \<Rightarrow>
          (case Report wr kvs z1 of
             (z2, Some err) \<Rightarrow> (z2, Some err)
           | (z2, None) \<Rightarrow> (z2, None)))"

section \<open>Add under concurrent callers\<close>

text \<open>
  \<open>Add\<close> takes the read side of the embedded \<open>sync.RWMutex\<close> (\<open>z.RLock()\<close>, with
  \<open>z.RUnlock()\<close> deferred). A read lock is shared: \<open>RLock\<close> waits only for a writer,
  and no method of \<open>Zipf\<close> ever calls \<open>Lock\<close>. The statements of \<open>Add\<close> are the steps of
  a goroutine; the program counter says which statement comes next, and carries the
  local variable \<open>count\<close> once it has been read.
\<close>

record RWMutex =
  readers :: nat
  writer :: bool

datatype pc =
    AtRLock                       \<comment> \<open>before \<open>z.RLock()\<close>\<close>
  | AtCheck                       \<comment> \<open>before \<open>if s == ""\<close>\<close>
  | AtLookup                      \<comment> \<open>before \<open>count, ok := z.words[s]\<close>\<close>
  | AtInsert                      \<comment> \<open>\<open>!ok\<close>: before \<open>z.words[s] = 1\<close>\<close>
  | AtStore int64                 \<comment> \<open>before \<open>z.words[s] = count + 1\<close>\<close>
  | AtRUnlock "error option"      \<comment> \<open>before the deferred \<open>z.RUnlock()\<close>\<close>
  | Returned "error option"

fun Add_step :: "'w Zipf \<times> RWMutex \<Rightarrow> string \<Rightarrow> pc \<Rightarrow> (('w Zipf \<times> RWMutex) \<times> pc) option" where
  "Add_step (z, mu) s AtRLock =
     (if writer mu then None else Some ((z, mu\<lparr>readers := readers mu + 1\<rparr>), AtCheck))"
| "Add_step (z, mu) s AtCheck =
     Some ((z, mu), if s = '''' then AtRUnlock (Some EmptyWord) else AtLookup)"
| "Add_step (z, mu) s AtLookup =
     Some ((z, mu), case words z s of None \<Rightarrow> AtInsert | Some c \<Rightarrow> AtStore c)"
| "Add_step (z, mu) s AtInsert =
     Some ((z\<lparr>words := (words z)(s \<mapsto> 1)\<rparr>, mu), AtStore 0)"
| "Add_step (z, mu) s (AtStore count) =
     Some ((z\<lparr>words := (words z)(s \<mapsto> count + 1)\<rparr>, mu), AtRUnlock None)"
| "Add_step (z, mu) s (AtRUnlock r) =
     Some ((z, mu\<lparr>readers := readers mu - 1\<rparr>), Returned r)"
| "Add_step (z, mu) s (Returned r) = None"

text \<open>
  A schedule is the list of the goroutines' indices in the order in which they take
  their steps. A goroutine that is blocked or has returned does nothing on its turn.
\<close>

fun run :: "nat list \<Rightarrow> ('w Zipf \<times> RWMutex) \<times> (string \<times> pc) list \<Rightarrow>
    ('w Zipf \<times> RWMutex) \<times> (string \<times> pc) list" where
  "run [] cfg = cfg"
| "run (i # sched) (sh, ts) =
     (if i < length ts then
        (case Add_step sh (fst (ts ! i)) (snd (ts ! i)) of
           None \<Rightarrow> run sched (sh, ts)
         | Some (sh', pc') \<Rightarrow> run sched (sh', ts[i := (fst (ts ! i), pc')]))
      else run sched (sh, ts))"

section \<open>Predicates on the table\<close>

definition table_inv :: "(string \<rightharpoonup> int64) \<Rightarrow> bool" where
  "table_inv m = ((\<forall>t c. m t = Some c \<longrightarrow> 1 \<le> sint c) \<and> m '''' = None)"

definition never_shrinks :: "(string \<rightharpoonup> int64) \<Rightarrow> (string \<rightharpoonup> int64) \<Rightarrow> bool" where
  "never_shrinks m m' = (\<forall>t c. m t = Some c \<longrightarrow> (\<exists>c'. m' t = Some c' \<and> sint c \<le> sint c'))"

text \<open>Reading a decimal numeral back, to say what \<open>dec_nat\<close> prints.\<close>

definition dec_value :: "string \<Rightarrow> nat" where
  "dec_value s = foldl (\<lambda>a c. 10 * a + (of_char c - 48)) 0 s"

section \<open>Sample values\<close>

definition fresh :: "string list Zipf" where
  "fresh = \<lparr> path = ''dir'', limit = 10, out = [], symbols = False,
             words = Map.empty, counts = Map.empty, collection = [] \<rparr>"

definition unlocked :: RWMutex where
  "unlocked = \<lparr> readers = 0, writer = False \<rparr>"

definition one_a :: "string list Zipf" where
  "one_a = fresh\<lparr>words := [''a'' \<mapsto> 1]\<rparr>"

definition saturated :: "string list Zipf" where
  "saturated = fresh\<lparr>words := [''a'' \<mapsto> 0x7FFFFFFFFFFFFFFF]\<rparr>"

definition sample_kvs :: "(string \<times> int64) list" where
  "sample_kvs = [(''the'', 3), (''sat'', 1), (''cat'', 2)]"

definition sample :: "string list Zipf" where
  "sample = fresh\<lparr>limit := 2, words := map_of sample_kvs\<rparr>"

definition with_symbols :: "string list Zipf" where
  "with_symbols = fresh\<lparr>symbols := True\<rparr>"

definition SplitWord_fails :: splitter where
  "SplitWord_fails line = Inl (IOError ''split'')"

definition SplitSymbol_bang :: splitter where
  "SplitSymbol_bang line = Inr [''!'']"

definition SplitWord_gap :: splitter where
  "SplitWord_gap line = Inr [''a'', '''', ''b'']"

definition text_file :: "string list \<Rightarrow> Entry" where
  "text_file lines =
     \<lparr> name = ''dir/f.txt'', info = Some (FileInfo False),
       content = \<lparr> open_error = None, scanned = lines, scan_error = None, close_error = None \<rparr> \<rparr>"

text \<open>The table \<open>{a: 1}\<close> after one \<open>Report\<close>, and after one more \<open>Add("a")\<close>.\<close>

definition reported :: "string list Zipf" where
  "reported = fst (Report record_write [(''a'', 1)] one_a)"

definition stale :: "string list Zipf" where
  "stale = fst (Add reported ''a'')"

section \<open>Auxiliary facts\<close>

subsection \<open>Signed reading of \<open>int64\<close>\<close>

lemma sint_of_nat_small: "n < 2 ^ 63 \<Longrightarrow> sint (of_nat n :: int64) = int n"
proof -
  assume n: "n < 2 ^ 63"
  have "sint (of_nat n :: int64) = signed_take_bit 63 (int n)"
    by (simp add: signed_of_nat)
  also have "\<dots> = int n"
    using n by (intro signed_take_bit_int_eq_self) auto
  finally show ?thesis .
qed

lemma sint_plus_one: "sint (c :: int64) < 2 ^ 63 - 1 \<Longrightarrow> sint (c + 1) = sint c + 1"
proof -
  assume c: "sint c < 2 ^ 63 - 1"
  have lo: "- (2 ^ 63) \<le> sint c"
    using sint_ge [of c] by simp
  have "sint (c + 1) = signed_take_bit 63 (sint c + 1)"
    by (simp add: sint_word_add)
  also have "\<dots> = sint c + 1"
    using c lo by (intro signed_take_bit_int_eq_self) auto
  finally show ?thesis .
qed

subsection \<open>Add and the token loop\<close>

lemma Add_empty: "Add z '''' = (z, Some EmptyWord)"
  by (simp add: Add_def)

lemma Add_ok: "s \<noteq> '''' \<Longrightarrow> snd (Add z s) = None"
  by (simp add: Add_def split: option.splits)

lemma Add_words:
  "s \<noteq> '''' \<Longrightarrow>
   words (fst (Add z s)) = (words z)(s \<mapsto> (case words z s of None \<Rightarrow> 0 | Some c \<Rightarrow> c) + 1)"
  by (simp add: Add_def split: option.splits)

lemma Add_symbols: "symbols (fst (Add z s)) = symbols z"
  by (simp add: Add_def split: option.splits)

lemma AddAll_symbols: "symbols (fst (AddAll z ws)) = symbols z"
proof (induction ws arbitrary: z)
  case Nil
  then show ?case by simp
next
  case (Cons w ws)
  show ?case
    using Cons.IH [of "fst (Add z w)"] Add_symbols [of z w]
    by (cases "Add z w") (auto split: option.splits)
qed

lemma AddAll_clean: "'''' \<notin> set ws \<Longrightarrow> AddAll z ws = (fst (AddAll z ws), None)"
proof (induction ws arbitrary: z)
  case Nil
  then show ?case by simp
next
  case (Cons w ws)
  then have w: "w \<noteq> ''''" and ws: "'''' \<notin> set ws" by auto
  obtain z' where z': "Add z w = (z', None)"
    using Add_ok [OF w, of z] by (cases "Add z w") auto
  show ?case
    using Cons.IH [OF ws, of z'] by (simp add: z')
qed

lemma AddAll_stops:
  "'''' \<notin> set pre \<Longrightarrow> AddAll z (pre @ '''' # post) = (fst (AddAll z pre), Some EmptyWord)"
proof (induction pre arbitrary: z)
  case Nil
  then show ?case by (simp add: Add_def)
next
  case (Cons w pre)
  then have w: "w \<noteq> ''''" and pre: "'''' \<notin> set pre" by auto
  obtain z' where z': "Add z w = (z', None)"
    using Add_ok [OF w, of z] by (cases "Add z w") auto
  show ?case
    using Cons.IH [OF pre, of z'] by (simp add: z')
qed

lemma AddAll_words:
  "'''' \<notin> set ws \<Longrightarrow>
   words (fst (AddAll z ws)) t =
     (if t \<in> set ws
      then Some ((case words z t of None \<Rightarrow> 0 | Some c \<Rightarrow> c) + of_nat (count_list ws t))
      else words z t)"
proof (induction ws arbitrary: z)
  case Nil
  then show ?case by simp
next
  case (Cons w ws)
  then have w: "w \<noteq> ''''" and ws: "'''' \<notin> set ws" by auto
  obtain z' where z': "Add z w = (z', None)"
    using Add_ok [OF w, of z] by (cases "Add z w") auto
  have wz': "words z' = (words z)(w \<mapsto> (case words z w of None \<Rightarrow> 0 | Some c \<Rightarrow> c) + 1)"
    using Add_words [OF w, of z] z' by simp
  have "words (fst (AddAll z (w # ws))) t = words (fst (AddAll z' ws)) t"
    by (simp add: z')
  also have "\<dots> =
      (if t \<in> set ws
       then Some ((case words z' t of None \<Rightarrow> 0 | Some c \<Rightarrow> c) + of_nat (count_list ws t))
       else words z' t)"
    by (rule Cons.IH [OF ws])
  finally show ?case
    by (auto simp: wz' split: option.splits)
qed

lemma count_list_replicate_same: "count_list (replicate n x) x = n"
  by (induction n) auto

text \<open>\<open>2^63\<close> calls \<open>Add("a")\<close> on the table of \<open>New\<close>: all succeed, and the count has wrapped.\<close>

lemma AddAll_wraps:
  "snd (AddAll fresh (replicate (2 ^ 63) ''a'')) = None
   \<and> words (fst (AddAll fresh (replicate (2 ^ 63) ''a''))) ''a'' = Some 0x8000000000000000"
proof -
  let ?ws = "replicate (2 ^ 63) ''a''"
  have ne: "'''' \<notin> set ?ws" by auto
  have m: "''a'' \<in> set ?ws" by auto
  have e: "words fresh ''a'' = None" by (simp add: fresh_def)
  have "words (fst (AddAll fresh ?ws)) ''a'' = Some (of_nat (count_list ?ws ''a''))"
    using m e by (simp only: AddAll_words [OF ne] if_True option.case add_0)
  also have "count_list ?ws ''a'' = 2 ^ 63"
    by (rule count_list_replicate_same)
  also have "(of_nat (2 ^ 63) :: int64) = 0x8000000000000000"
    by simp
  finally have "words (fst (AddAll fresh ?ws)) ''a'' = Some 0x8000000000000000" .
  moreover have "snd (AddAll fresh ?ws) = None"
    using AddAll_clean [OF ne, of fresh] by (metis snd_conv)
  ultimately show ?thesis by blast
qed

subsection \<open>The interleaving model against the sequential Add\<close>

lemma run_alone_is_Add:
  "\<not> writer mu \<Longrightarrow>
   run [0, 0, 0, 0, 0, 0] ((z, mu), [(s, AtRLock)]) =
     ((fst (Add z s), mu), [(s, Returned (snd (Add z s)))])"
  by (cases "words z s") (auto simp: Add_def)

lemma run_shares_read_lock:
  "snd (fst (run [0, 1] ((fresh, unlocked), [(''a'', AtRLock), (''a'', AtRLock)]))) =
     \<lparr> readers = 2, writer = False \<rparr>"
  by (simp add: fresh_def unlocked_def)

subsection \<open>Formatting\<close>

lemma of_char_digit: "d < 10 \<Longrightarrow> of_char (digit d) = (48 + d :: nat)"
proof -
  assume "d < 10"
  then consider "d = 0" | "d = 1" | "d = 2" | "d = 3" | "d = 4"
    | "d = 5" | "d = 6" | "d = 7" | "d = 8" | "d = 9"
    by atomize_elim arith
  then show ?thesis
    by cases (simp_all add: digit_def)
qed

lemma dec_value_dec_nat: "dec_value (dec_nat n) = n"
proof (induction n rule: dec_nat.induct)
  case (1 n)
  show ?case
  proof (cases "n < 10")
    case True
    then show ?thesis
      by (subst dec_nat.simps) (simp add: dec_value_def of_char_digit)
  next
    case False
    have "dec_value (dec_nat n) =
        10 * dec_value (dec_nat (n div 10)) + (of_char (digit (n mod 10)) - 48)"
      using False by (subst dec_nat.simps) (simp add: dec_value_def)
    also have "\<dots> = 10 * (n div 10) + n mod 10"
      using 1 [OF False] by (simp add: of_char_digit)
    finally show ?thesis by simp
  qed
qed

lemma fmt_d_value:
  "fmt_d i = (if i < 0 then CHR ''-'' # fmt_d (- i) else fmt_d i)
   \<and> (0 \<le> i \<longrightarrow> int (dec_value (fmt_d i)) = i)"
  by (simp add: fmt_d_def dec_value_dec_nat)

lemma write_all_record: "write_all record_write w xs = w @ map format_line xs"
  by (induction xs arbitrary: w) (auto simp: Fprintf_def record_write_def)

subsection \<open>Selection and sorting\<close>

lemma select_take:
  "select lim i kvs coll =
     coll @ map (\<lambda>(k, c). \<lparr>Word = k, Count = c\<rparr>) (take (nat (lim - i)) kvs)"
proof (induction kvs arbitrary: i coll)
  case Nil
  then show ?case by simp
next
  case (Cons kc kvs)
  obtain k c where kc: "kc = (k, c)" by (cases kc)
  show ?case
  proof (cases "i + 1 > lim")
    case True
    then have "nat (lim - i) = 0" by simp
    with True Cons.IH [of "i + 1" coll] show ?thesis
      by (simp add: kc)
  next
    case False
    then have "nat (lim - i) = Suc (nat (lim - (i + 1)))" by simp
    with False Cons.IH [of "i + 1" "coll @ [\<lparr>Word = k, Count = c\<rparr>]"] show ?thesis
      by (simp add: kc)
  qed
qed

lemma length_insert_Less: "length (insert_Less lt x ys) = Suc (length ys)"
  by (induction ys) auto

lemma length_Sort: "length (Sort lt xs) = length xs"
  by (induction xs) (auto simp: length_insert_Less)

lemma set_insert_Less: "set (insert_Less lt x ys) = insert x (set ys)"
  by (induction ys) auto

lemma set_Sort: "set (Sort lt xs) = set xs"
  by (induction xs) (auto simp: set_insert_Less)

lemma sorted_insert_Less:
  "sorted (map (\<lambda>x. sint (Count x)) ys) \<Longrightarrow>
   sorted (map (\<lambda>x. sint (Count x)) (insert_Less ByCountAsc_Less x ys))"
  by (induction ys) (auto simp: set_insert_Less ByCountAsc_Less_def)

lemma sorted_Sort: "sorted (map (\<lambda>x. sint (Count x)) (Sort ByCountAsc_Less xs))"
  by (induction xs) (auto simp: sorted_insert_Less)

lemma enumerates_length: "enumerates kvs m \<Longrightarrow> length kvs = card (dom m)"
proof -
  assume e: "enumerates kvs m"
  then have d: "distinct (map fst kvs)" and m: "map_of kvs = m"
    by (auto simp: enumerates_def)
  have "card (dom m) = card (set (map fst kvs))"
    using m by (auto simp: dom_map_of_conv_image_fst)
  also have "\<dots> = length (map fst kvs)"
    using d by (rule distinct_card)
  finally show ?thesis by simp
qed

lemma enumerates_entry: "enumerates kvs m \<Longrightarrow> (k, c) \<in> set kvs \<Longrightarrow> m k = Some c"
  by (auto simp: enumerates_def)

lemma Report_fields:
  "path (fst (Report wr kvs z)) = path z
   \<and> limit (fst (Report wr kvs z)) = limit z
   \<and> symbols (fst (Report wr kvs z)) = symbols z
   \<and> words (fst (Report wr kvs z)) = words z
   \<and> counts (fst (Report wr kvs z)) = counts z
   \<and> collection (fst (Report wr kvs z)) =
       Sort ByCountAsc_Less
         (collection z @ map (\<lambda>(k, c). \<lparr>Word = k, Count = c\<rparr>) (take (nat (limit z)) kvs))
   \<and> out (fst (Report wr kvs z)) = write_all wr (out z) (collection (fst (Report wr kvs z)))"
  by (simp add: Report_def Let_def select_take)

subsection \<open>The loops of Walk\<close>

lemma lines_loop_append:
  "lines_loop SW SS z ls1 = (z1, None) \<Longrightarrow>
   lines_loop SW SS z (ls1 @ ls) = lines_loop SW SS z1 ls"
proof (induction ls1 arbitrary: z)
  case Nil
  then show ?case by simp
next
  case (Cons l ls1)
  then show ?case
    by (auto split: if_splits sum.splits prod.splits option.splits)
qed

lemma Walk_append:
  "Walk SW SS z0 es0 = (z, None) \<Longrightarrow> Walk SW SS z0 (es0 @ es) = Walk SW SS z es"
proof (induction es0 arbitrary: z0)
  case Nil
  then show ?case by simp
next
  case (Cons e es0)
  then show ?case
    by (auto split: prod.splits option.splits)
qed

lemma lines_loop_word_failure:
  assumes "line \<noteq> ''''" "SW line = Inr (pre @ '''' # post)" "'''' \<notin> set pre"
  shows "lines_loop SW SS z (line # rest) = (fst (AddAll z pre), Some EmptyWord)"
proof -
  have b: "AddAll z (pre @ '''' # post) = (fst (AddAll z pre), Some EmptyWord)"
    using assms(3) by (rule AddAll_stops)
  have l: "\<not> length line < 1" using assms(1) by simp
  show ?thesis
    by (simp only: lines_loop.simps l if_False assms(2) sum.case b prod.case option.case)
qed

lemma lines_loop_symbol_failure:
  assumes "line \<noteq> ''''" "SW line = Inr ws" "'''' \<notin> set ws" "symbols z"
    "SS line = Inr (pre @ '''' # post)" "'''' \<notin> set pre"
  shows "lines_loop SW SS z (line # rest) =
    (fst (AddAll (fst (AddAll z ws)) pre), Some EmptyWord)"
proof -
  let ?z1 = "fst (AddAll z ws)"
  have a: "AddAll z ws = (?z1, None)" using assms(3) by (rule AddAll_clean)
  have s: "symbols ?z1" using assms(4) by (simp add: AddAll_symbols)
  have b: "AddAll ?z1 (pre @ '''' # post) = (fst (AddAll ?z1 pre), Some EmptyWord)"
    using assms(6) by (rule AddAll_stops)
  have l: "\<not> length line < 1" using assms(1) by simp
  have "lines_loop SW SS z (line # rest) =
    (case AddAll z ws of
       (z1, Some err) \<Rightarrow> (z1, Some err)
     | (z1, None) \<Rightarrow>
         if symbols z1 then
           (case SS line of
              Inl err \<Rightarrow> lines_loop SW SS z1 rest
            | Inr ss \<Rightarrow>
                (case AddAll z1 ss of
                   (z2, Some err) \<Rightarrow> (z2, Some err)
                 | (z2, None) \<Rightarrow> lines_loop SW SS z2 rest))
         else lines_loop SW SS z1 rest)"
    by (simp only: lines_loop.simps l if_False assms(2) sum.case)
  also have "\<dots> = (fst (AddAll ?z1 pre), Some EmptyWord)"
    by (subst a) (simp only: prod.case option.case s if_True assms(5) sum.case b)
  finally show ?thesis .
qed

lemma walkFn_file:
  assumes "info e \<noteq> Some (FileInfo True)" "readLines (content e) = (ls, None)"
  shows "walkFn SW SS z e = lines_loop SW SS z ls"
proof -
  have "\<not> (case info e of None \<Rightarrow> False | Some fi \<Rightarrow> IsDir fi)"
    using assms(1) by (cases "info e") (auto simp: FileInfo.expand)
  then show ?thesis
    using assms(2) by (simp add: walkFn_def)
qed

lemma Walk_abort:
  assumes "Walk SW SS z0 es0 = (z, None)"
    and "info e \<noteq> Some (FileInfo True)"
    and "readLines (content e) = (ls1 @ line # ls2, None)"
    and "lines_loop SW SS z ls1 = (z1, None)"
    and "lines_loop SW SS z1 (line # ls2) = (z2, Some err)"
  shows "Walk SW SS z0 (es0 @ e # es) = (z2, Some err)"
proof -
  have "walkFn SW SS z e = lines_loop SW SS z (ls1 @ line # ls2)"
    using assms(2,3) by (rule walkFn_file)
  also have "\<dots> = lines_loop SW SS z1 (line # ls2)"
    using assms(4) by (rule lines_loop_append)
  finally have "walkFn SW SS z e = (z2, Some err)"
    using assms(5) by simp
  then have "Walk SW SS z (e # es) = (z2, Some err)" by simp
  then show ?thesis
    using Walk_append [OF assms(1), of "e # es"] by simp
qed

section \<open>The claims\<close>

subsection \<open>Add\<close>

text \<open>
  C1: \<open>Add\<close> is safe under concurrent callers: for every interleaving, the final count
  of a term equals the number of successful \<open>Add\<close> calls for it.
  The code holds only the shared read lock around its read-modify-write, so two callers
  run it at once. In the schedule below both goroutines take the read lock and look the
  term up in the empty table before either stores; both calls return nil and the count
  of the term is 1, not 2.
\<close>

theorem Add_concurrent_lost_update:
  "run [0, 0, 0, 1, 1, 1, 0, 0, 0, 1, 1, 1]
       ((fresh, unlocked), [(''a'', AtRLock), (''a'', AtRLock)]) =
     ((fresh\<lparr>words := [''a'' \<mapsto> 1]\<rparr>, unlocked),
      [(''a'', Returned None), (''a'', Returned None)])"
  by (simp add: fresh_def unlocked_def)

text \<open>
  C2, as stated: for every non-empty \<open>t\<close> and every table, \<open>Add(t)\<close> succeeds and
  increases the count of \<open>t\<close> by exactly 1, and after any sequence of \<open>Add\<close> calls the
  count of \<open>t\<close> is the number of \<open>Add(t)\<close> calls. The count is an \<open>int64\<close>: at the
  largest value the addition wraps to the smallest, and after \<open>2^63\<close> calls \<open>Add("a")\<close>
  on the table of \<open>New\<close> the count of \<open>a\<close> is \<open>-2^63\<close>.
\<close>

theorem Add_wraps_at_max_count:
  "words saturated ''a'' = Some 0x7FFFFFFFFFFFFFFF
   \<and> sint (0x7FFFFFFFFFFFFFFF :: int64) = 9223372036854775807
   \<and> snd (Add saturated ''a'') = None
   \<and> words (fst (Add saturated ''a'')) ''a'' = Some 0x8000000000000000
   \<and> sint (0x8000000000000000 :: int64) = - 9223372036854775808
   \<and> count_list (replicate (2 ^ 63) ''a'') ''a'' = 2 ^ 63
   \<and> snd (AddAll fresh (replicate (2 ^ 63) ''a'')) = None
   \<and> words (fst (AddAll fresh (replicate (2 ^ 63) ''a''))) ''a'' = Some 0x8000000000000000"
proof -
  have "words saturated ''a'' = Some 0x7FFFFFFFFFFFFFFF
      \<and> sint (0x7FFFFFFFFFFFFFFF :: int64) = 9223372036854775807
      \<and> snd (Add saturated ''a'') = None
      \<and> words (fst (Add saturated ''a'')) ''a'' = Some 0x8000000000000000
      \<and> sint (0x8000000000000000 :: int64) = - 9223372036854775808"
    by (simp add: saturated_def fresh_def Add_def)
  then show ?thesis
    using AddAll_wraps count_list_replicate_same [of "2 ^ 63" "''a''"] by blast
qed

text \<open>
  C2, amended: for every non-empty \<open>t\<close> and every table in which the count of \<open>t\<close> is
  below \<open>2^63 - 1\<close>, \<open>Add(t)\<close> succeeds, increases the count stored for \<open>t\<close> by exactly 1,
  inserts \<open>t\<close> with count 1 when it is absent, and leaves every other term as it was;
  after any sequence of \<open>Add\<close> calls with no empty string on an empty table, in which \<open>t\<close>
  occurs fewer than \<open>2^63\<close> times, \<open>t\<close> is in the table exactly when it occurs in the
  sequence, and its count is the number of its occurrences.
\<close>

theorem Add_increments_count:
  "(t \<noteq> '''' \<and> (\<forall>c. words z t = Some c \<longrightarrow> sint c < 2 ^ 63 - 1) \<longrightarrow>
      snd (Add z t) = None
      \<and> (words z t = None \<longrightarrow> words (fst (Add z t)) t = Some 1)
      \<and> (\<forall>c. words z t = Some c \<longrightarrow>
            (\<exists>c'. words (fst (Add z t)) t = Some c' \<and> sint c' = sint c + 1))
      \<and> (\<forall>u. u \<noteq> t \<longrightarrow> words (fst (Add z t)) u = words z u))
   \<and> ('''' \<notin> set ws \<and> words z0 = Map.empty \<and> count_list ws t < 2 ^ 63 \<longrightarrow>
      snd (AddAll z0 ws) = None
      \<and> (t \<notin> set ws \<longrightarrow> words (fst (AddAll z0 ws)) t = None)
      \<and> (t \<in> set ws \<longrightarrow>
            (\<exists>c. words (fst (AddAll z0 ws)) t = Some c \<and> sint c = int (count_list ws t))))"
proof (intro conjI impI)
  assume h: "t \<noteq> '''' \<and> (\<forall>c. words z t = Some c \<longrightarrow> sint c < 2 ^ 63 - 1)"
  then have t: "t \<noteq> ''''" by simp
  show "snd (Add z t) = None" using t by (rule Add_ok)
  show "words (fst (Add z t)) t = Some 1" if "words z t = None"
    using that by (simp add: Add_words [OF t])
  show "\<forall>c. words z t = Some c \<longrightarrow>
      (\<exists>c'. words (fst (Add z t)) t = Some c' \<and> sint c' = sint c + 1)"
    using h by (auto simp: Add_words [OF t] sint_plus_one)
  show "\<forall>u. u \<noteq> t \<longrightarrow> words (fst (Add z t)) u = words z u"
    by (simp add: Add_words [OF t])
next
  assume h: "'''' \<notin> set ws \<and> words z0 = Map.empty \<and> count_list ws t < 2 ^ 63"
  then have ws: "'''' \<notin> set ws" and e: "words z0 t = None" and n: "count_list ws t < 2 ^ 63"
    by simp_all
  show "snd (AddAll z0 ws) = None"
    using AddAll_clean [OF ws, of z0] by (metis snd_conv)
  show "words (fst (AddAll z0 ws)) t = None" if "t \<notin> set ws"
    using that e by (simp add: AddAll_words [OF ws])
  show "\<exists>c. words (fst (AddAll z0 ws)) t = Some c \<and> sint c = int (count_list ws t)"
    if "t \<in> set ws"
    using that e n by (simp add: AddAll_words [OF ws] sint_of_nat_small)
qed

theorem Add_increments_count_witness:
  "''a'' \<noteq> '''' \<and> words one_a ''a'' = Some 1 \<and> sint (1 :: int64) < 2 ^ 63 - 1
   \<and> snd (Add one_a ''a'') = None
   \<and> words (fst (Add one_a ''a'')) ''a'' = Some 2
   \<and> words (fst (Add one_a ''b'')) ''b'' = Some 1
   \<and> '''' \<notin> set [''a'', ''b'', ''a''] \<and> words fresh = Map.empty
   \<and> count_list [''a'', ''b'', ''a''] ''a'' = 2
   \<and> snd (AddAll fresh [''a'', ''b'', ''a'']) = None
   \<and> (\<exists>c. words (fst (AddAll fresh [''a'', ''b'', ''a''])) ''a'' = Some c \<and> sint c = 2)"
  using Add_increments_count [of "''a''" one_a "[''a'', ''b'', ''a'']" fresh]
    Add_increments_count [of "''b''" one_a "[]" fresh]
  by (simp add: one_a_def fresh_def Add_def)

text \<open>
  C3: \<open>Add("")\<close> returns an error in every state; the empty string is the only input on
  which \<open>Add\<close> returns an error; the failing call returns the receiver as it was, so the
  table has the same keys and the same count for every term.
\<close>

theorem Add_empty_only_failure:
  "snd (Add z '''') = Some EmptyWord
   \<and> fst (Add z '''') = z
   \<and> dom (words (fst (Add z ''''))) = dom (words z)
   \<and> (\<forall>t. words (fst (Add z '''')) t = words z t)
   \<and> (\<forall>s. (snd (Add z s) \<noteq> None) = (s = ''''))"
  by (simp add: Add_def split: option.splits)

theorem Add_empty_only_failure_witness:
  "snd (Add one_a '''') = Some EmptyWord
   \<and> words (fst (Add one_a '''')) ''a'' = Some 1
   \<and> snd (Add one_a ''a'') = None"
  using Add_empty_only_failure [of one_a]
  by (simp add: one_a_def fresh_def Add_def)

text \<open>
  C4, as stated: the predicate (every count is at least 1, the empty string is no key,
  no key is removed and no count decreases) is preserved by every \<open>Add\<close>. On a table
  that satisfies it and holds the largest \<open>int64\<close> for a term, \<open>Add\<close> of that term
  leaves a negative count, smaller than the one before; \<open>2^63\<close> calls \<open>Add("a")\<close> on the
  table of \<open>New\<close> lead to such a table.
\<close>

theorem Add_breaks_invariant_at_max_count:
  "table_inv (words saturated)
   \<and> snd (Add saturated ''a'') = None
   \<and> \<not> table_inv (words (fst (Add saturated ''a'')))
   \<and> \<not> never_shrinks (words saturated) (words (fst (Add saturated ''a'')))
   \<and> \<not> table_inv (words (fst (AddAll fresh (replicate (2 ^ 63) ''a''))))"
proof -
  have 1: "table_inv (words saturated)"
    by (simp add: table_inv_def saturated_def fresh_def)
  have 2: "words (fst (Add saturated ''a'')) ''a'' = Some 0x8000000000000000"
    by (simp add: saturated_def fresh_def Add_def)
  have 3: "\<not> table_inv (words (fst (Add saturated ''a'')))"
  proof
    assume "table_inv (words (fst (Add saturated ''a'')))"
    then have "1 \<le> sint (0x8000000000000000 :: int64)"
      using 2 unfolding table_inv_def by blast
    then show False by simp
  qed
  have 4: "words saturated ''a'' = Some 0x7FFFFFFFFFFFFFFF"
    by (simp add: saturated_def fresh_def)
  have 5: "\<not> never_shrinks (words saturated) (words (fst (Add saturated ''a'')))"
  proof
    assume "never_shrinks (words saturated) (words (fst (Add saturated ''a'')))"
    then have "sint (0x7FFFFFFFFFFFFFFF :: int64) \<le> sint (0x8000000000000000 :: int64)"
      using 2 4 unfolding never_shrinks_def by fastforce
    then show False by simp
  qed
  have 6: "snd (Add saturated ''a'') = None"
    by (simp add: Add_ok)
  have 7: "\<not> table_inv (words (fst (AddAll fresh (replicate (2 ^ 63) ''a''))))"
  proof
    assume "table_inv (words (fst (AddAll fresh (replicate (2 ^ 63) ''a''))))"
    then have "1 \<le> sint (0x8000000000000000 :: int64)"
      using AddAll_wraps unfolding table_inv_def by blast
    then show False by simp
  qed
  from 1 3 5 6 7 show ?thesis by simp
qed

text \<open>
  C4, amended: the predicate holds for the table that \<open>New\<close> builds, and every \<open>Add\<close>
  call, successful or failing, on a table in which the count of the added term is below
  \<open>2^63 - 1\<close> preserves it: afterwards every count is at least 1, the empty string is
  no key, and every term of the table before is still there with a count that is not
  smaller.
\<close>

theorem table_invariant:
  "(New dir lim syms output = Inr z0 \<longrightarrow> table_inv (words z0))
   \<and> (table_inv (words z) \<and> (\<forall>c. words z s = Some c \<longrightarrow> sint c < 2 ^ 63 - 1) \<longrightarrow>
        table_inv (words (fst (Add z s)))
        \<and> never_shrinks (words z) (words (fst (Add z s))))"
proof (intro conjI impI)
  assume "New dir lim syms output = Inr z0"
  then have "words z0 = Map.empty"
    by (auto simp: New_def split: if_splits)
  then show "table_inv (words z0)"
    by (simp add: table_inv_def)
next
  assume h: "table_inv (words z) \<and> (\<forall>c. words z s = Some c \<longrightarrow> sint c < 2 ^ 63 - 1)"
  show "table_inv (words (fst (Add z s)))"
  proof (cases "s = ''''")
    case True
    with h show ?thesis by (simp add: Add_empty)
  next
    case False
    have inv: "\<And>t c. words z t = Some c \<Longrightarrow> 1 \<le> sint c" and emp: "words z '''' = None"
      using h by (auto simp: table_inv_def)
    have "1 \<le> sint c" if "words (fst (Add z s)) t = Some c" for t c
    proof (cases "t = s")
      case True
      show ?thesis
      proof (cases "words z s")
        case None
        with that True show ?thesis by (simp add: Add_words [OF False])
      next
        case (Some c0)
        then have "sint c0 < 2 ^ 63 - 1" and "1 \<le> sint c0"
          using h inv by auto
        then have "1 \<le> sint (c0 + 1)" by (simp add: sint_plus_one)
        with that True Some show ?thesis by (simp add: Add_words [OF False])
      qed
    next
      case ne: False
      with that have "words z t = Some c" by (simp add: Add_words [OF False])
      then show ?thesis by (rule inv)
    qed
    moreover have "words (fst (Add z s)) '''' = None"
      using False emp by (simp add: Add_words [OF False])
    ultimately show ?thesis
      unfolding table_inv_def by blast
  qed
next
  assume h: "table_inv (words z) \<and> (\<forall>c. words z s = Some c \<longrightarrow> sint c < 2 ^ 63 - 1)"
  show "never_shrinks (words z) (words (fst (Add z s)))"
  proof (cases "s = ''''")
    case True
    then show ?thesis by (simp add: Add_empty never_shrinks_def)
  next
    case False
    with h show ?thesis
      by (auto simp: never_shrinks_def Add_words sint_plus_one)
  qed
qed

theorem table_invariant_witness:
  "New ''dir'' 10 False ([] :: string list) = Inr fresh
   \<and> table_inv (words fresh)
   \<and> table_inv (words one_a) \<and> words one_a ''a'' = Some 1 \<and> sint (1 :: int64) < 2 ^ 63 - 1
   \<and> table_inv (words (fst (Add one_a ''a'')))
   \<and> never_shrinks (words one_a) (words (fst (Add one_a ''a'')))
   \<and> table_inv (words (fst (Add one_a '''')))"
proof -
  have n: "New ''dir'' 10 False ([] :: string list) = Inr fresh"
    by (simp add: New_def fresh_def)
  have i: "table_inv (words one_a)"
    by (simp add: table_inv_def one_a_def fresh_def)
  have a: "words one_a ''a'' = Some 1"
    by (simp add: one_a_def fresh_def)
  have e: "words one_a '''' = None"
    by (simp add: one_a_def fresh_def)
  show ?thesis
    using table_invariant [of "''dir''" 10 False "[]" fresh one_a "''a''"]
      table_invariant [of "''dir''" 10 False "[]" fresh one_a "''''"] n i a e
    by simp
qed

subsection \<open>Report\<close>

text \<open>
  C5, as stated: for every table and every limit \<open>\<ge> 0\<close>, \<open>Report\<close> writes exactly
  \<open>min(limit, number of distinct terms)\<close> lines. \<open>Report\<close> appends its selection to
  the field \<open>collection\<close> and writes one line per element of that field: on the table
  \<open>{a: 1}\<close> with limit 10, a \<open>Zipf\<close> that has reported once writes two lines at the
  next \<open>Report\<close>, and the minimum is 1.
\<close>

theorem Report_second_call_line_count:
  "limit reported = 10
   \<and> words reported = [''a'' \<mapsto> 1]
   \<and> enumerates [(''a'', 1)] (words reported)
   \<and> card (dom (words reported)) = 1
   \<and> min (nat (limit reported)) (card (dom (words reported))) = 1
   \<and> out (fst (Report record_write [(''a'', 1)] reported)) =
       out reported @ [''a 1'' @ [CHR 0x0A], ''a 1'' @ [CHR 0x0A]]"
proof -
  have l: "limit reported = 10" and w: "words reported = [''a'' \<mapsto> 1]"
    by (simp_all add: reported_def Report_def one_a_def fresh_def)
  have e: "enumerates [(''a'', 1)] (words reported)"
    by (simp add: w enumerates_def)
  have c: "card (dom (words reported)) = 1"
    by (simp add: w)
  have o: "out (fst (Report record_write [(''a'', 1)] reported)) =
       out reported @ [''a 1'' @ [CHR 0x0A], ''a 1'' @ [CHR 0x0A]]"
    by (simp add: reported_def Report_def one_a_def fresh_def ByCountAsc_Less_def
        Fprintf_def record_write_def format_line_def fmt_d_def dec_nat.simps digit_def)
  from l w e c o show ?thesis by simp
qed

text \<open>
  C5, amended: for every table and every limit \<open>\<ge> 0\<close>, on a \<open>Zipf\<close> whose field
  \<open>collection\<close> is empty before the call, as \<open>New\<close> builds it and \<open>Add\<close> leaves it,
  \<open>Report\<close> writes exactly \<open>min(limit, number of distinct terms)\<close> lines, each of them
  a word, a space, a count and a newline; none when the limit is 0 and none when the
  table is empty. The lines are the writes that a recording sink receives; \<open>kvs\<close> is
  any order in which the iteration yields the table.
\<close>

theorem Report_line_count:
  assumes "0 \<le> limit z" and "collection z = []" and "enumerates kvs (words z)"
  shows "\<exists>xs. out (fst (Report record_write kvs z)) = out z @ map format_line xs
          \<and> length xs = min (nat (limit z)) (card (dom (words z)))
          \<and> (\<forall>x \<in> set xs.
                format_line x = Word x @ '' '' @ fmt_d (sint (Count x)) @ [CHR 0x0A]
                \<and> format_line x \<noteq> [] \<and> last (format_line x) = CHR 0x0A)
          \<and> (limit z = 0 \<longrightarrow> xs = [])
          \<and> (words z = Map.empty \<longrightarrow> xs = [])"
proof -
  let ?c = "collection (fst (Report record_write kvs z))"
  have o: "out (fst (Report record_write kvs z)) = out z @ map format_line ?c"
    using Report_fields [of record_write kvs z] by (simp add: write_all_record)
  have "length ?c = min (nat (limit z)) (length kvs)"
    using Report_fields [of record_write kvs z] assms(2) by (simp add: length_Sort min.commute)
  then have l: "length ?c = min (nat (limit z)) (card (dom (words z)))"
    using enumerates_length [OF assms(3)] by simp
  have f: "\<forall>x \<in> set ?c.
      format_line x = Word x @ '' '' @ fmt_d (sint (Count x)) @ [CHR 0x0A]
      \<and> format_line x \<noteq> [] \<and> last (format_line x) = CHR 0x0A"
    by (simp add: format_line_def)
  have "?c = []" if "limit z = 0"
    using l that by simp
  moreover have "?c = []" if "words z = Map.empty"
    using l that by simp
  ultimately show ?thesis
    using o l f by blast
qed

theorem Report_line_count_witness:
  "0 \<le> limit sample \<and> collection sample = [] \<and> enumerates sample_kvs (words sample)
   \<and> limit sample = 2 \<and> card (dom (words sample)) = 3
   \<and> (\<exists>xs. out (fst (Report record_write sample_kvs sample)) = map format_line xs
         \<and> length xs = 2)
   \<and> out (fst (Report record_write sample_kvs sample)) =
       [''sat 1'' @ [CHR 0x0A], ''the 3'' @ [CHR 0x0A]]"
proof -
  have h1: "0 \<le> limit sample" and h2: "collection sample = []"
    and h3: "enumerates sample_kvs (words sample)" and h4: "limit sample = 2"
    and h5: "out sample = []"
    by (simp_all add: sample_def fresh_def enumerates_def sample_kvs_def)
  have h6: "card (dom (words sample)) = 3"
    using enumerates_length [OF h3] by (simp add: sample_kvs_def)
  have o: "out (fst (Report record_write sample_kvs sample)) =
       [''sat 1'' @ [CHR 0x0A], ''the 3'' @ [CHR 0x0A]]"
    by (simp add: Report_def sample_def fresh_def sample_kvs_def ByCountAsc_Less_def
        Fprintf_def record_write_def format_line_def fmt_d_def dec_nat.simps digit_def)
  have "\<exists>xs. out (fst (Report record_write sample_kvs sample)) = map format_line xs
         \<and> length xs = 2"
    using Report_line_count [OF h1 h2 h3] h4 h5 h6 by auto
  then show ?thesis
    using h1 h2 h3 h4 h6 o by simp
qed

text \<open>
  C6, as stated: for every table and limit, the lines \<open>Report\<close> writes are sorted by
  count and each line is \<open><word> <count>\n\<close> for a selected entry of the table.
  \<open>Report\<close> also writes the elements that an earlier call left in \<open>collection\<close>: after
  \<open>Report\<close>, \<open>Add("a")\<close> and \<open>Report\<close> on the table \<open>{a: 1}\<close>, the table holds
  \<open>a: 2\<close> and the second call writes \<open>a 1\<close>, which is no entry of the table.
\<close>

theorem Report_writes_stale_entry:
  "words stale = [''a'' \<mapsto> 2]
   \<and> enumerates [(''a'', 2)] (words stale)
   \<and> words stale ''a'' \<noteq> Some 1
   \<and> format_line \<lparr>Word = ''a'', Count = 1\<rparr> = ''a 1'' @ [CHR 0x0A]
   \<and> out (fst (Report record_write [(''a'', 2)] stale)) =
       out stale @ [''a 1'' @ [CHR 0x0A], ''a 2'' @ [CHR 0x0A]]"
proof -
  have w: "words stale = [''a'' \<mapsto> 2]"
    by (simp add: stale_def reported_def Report_def one_a_def fresh_def Add_def)
  have e: "enumerates [(''a'', 2)] (words stale)"
    by (simp add: w enumerates_def)
  have n: "words stale ''a'' \<noteq> Some 1"
    by (simp add: w)
  have f: "format_line \<lparr>Word = ''a'', Count = 1\<rparr> = ''a 1'' @ [CHR 0x0A]"
    by (simp add: format_line_def fmt_d_def dec_nat.simps digit_def)
  have o: "out (fst (Report record_write [(''a'', 2)] stale)) =
       out stale @ [''a 1'' @ [CHR 0x0A], ''a 2'' @ [CHR 0x0A]]"
    by (simp add: stale_def reported_def Report_def one_a_def fresh_def Add_def
        ByCountAsc_Less_def Fprintf_def record_write_def format_line_def fmt_d_def
        dec_nat.simps digit_def)
  from w e n f o show ?thesis by simp
qed

text \<open>
  C6, amended: for every table, table order and limit, the lines \<open>Report\<close> writes are
  sorted non-decreasing by count, and each line is \<open><word> <count>\n\<close>: the word, one
  space, the count as a signed decimal, a newline. On a \<open>Zipf\<close> whose field
  \<open>collection\<close> is empty before the call, as \<open>New\<close> builds it and \<open>Add\<close> leaves it,
  each line is for a selected entry of the table.
\<close>

theorem Report_lines_sorted:
  "\<exists>xs. out (fst (Report record_write kvs z)) = out z @ map format_line xs
      \<and> sorted (map (\<lambda>x. sint (Count x)) xs)
      \<and> (\<forall>x \<in> set xs.
            format_line x = Word x @ '' '' @ fmt_d (sint (Count x)) @ [CHR 0x0A]
            \<and> (0 \<le> sint (Count x) \<longrightarrow> int (dec_value (fmt_d (sint (Count x)))) = sint (Count x)))
      \<and> (collection z = [] \<and> enumerates kvs (words z) \<longrightarrow>
            (\<forall>x \<in> set xs. words z (Word x) = Some (Count x)))"
proof -
  let ?c = "collection (fst (Report record_write kvs z))"
  have c: "?c = Sort ByCountAsc_Less
      (collection z @ map (\<lambda>(k, c). \<lparr>Word = k, Count = c\<rparr>) (take (nat (limit z)) kvs))"
    using Report_fields [of record_write kvs z] by simp
  have 1: "out (fst (Report record_write kvs z)) = out z @ map format_line ?c"
    using Report_fields [of record_write kvs z] by (simp add: write_all_record)
  have 2: "sorted (map (\<lambda>x. sint (Count x)) ?c)"
    unfolding c by (rule sorted_Sort)
  have 3: "\<forall>x \<in> set ?c.
      format_line x = Word x @ '' '' @ fmt_d (sint (Count x)) @ [CHR 0x0A]
      \<and> (0 \<le> sint (Count x) \<longrightarrow> int (dec_value (fmt_d (sint (Count x)))) = sint (Count x))"
    using fmt_d_value by (simp add: format_line_def)
  have 4: "\<forall>x \<in> set ?c. words z (Word x) = Some (Count x)"
    if e: "collection z = [] \<and> enumerates kvs (words z)"
  proof
    fix x assume "x \<in> set ?c"
    then obtain k v where "(k, v) \<in> set (take (nat (limit z)) kvs)"
      and x: "x = \<lparr>Word = k, Count = v\<rparr>"
      using e unfolding c by (auto simp: set_Sort)
    then have "(k, v) \<in> set kvs" by (auto dest: in_set_takeD)
    then show "words z (Word x) = Some (Count x)"
      using enumerates_entry [of kvs "words z"] e x by simp
  qed
  from 1 2 3 4 show ?thesis by blast
qed

theorem Report_lines_sorted_witness:
  "collection sample = [] \<and> enumerates sample_kvs (words sample)
   \<and> out (fst (Report record_write sample_kvs sample)) =
       [''sat 1'' @ [CHR 0x0A], ''the 3'' @ [CHR 0x0A]]
   \<and> (\<exists>xs. out (fst (Report record_write sample_kvs sample)) = out sample @ map format_line xs
         \<and> sorted (map (\<lambda>x. sint (Count x)) xs)
         \<and> (\<forall>x \<in> set xs. words sample (Word x) = Some (Count x)))"
proof -
  have h2: "collection sample = []" and h3: "enumerates sample_kvs (words sample)"
    by (simp_all add: sample_def fresh_def enumerates_def sample_kvs_def)
  have o: "out (fst (Report record_write sample_kvs sample)) =
       [''sat 1'' @ [CHR 0x0A], ''the 3'' @ [CHR 0x0A]]"
    by (simp add: Report_def sample_def fresh_def sample_kvs_def ByCountAsc_Less_def
        Fprintf_def record_write_def format_line_def fmt_d_def dec_nat.simps digit_def)
  show ?thesis
    using Report_lines_sorted [of sample_kvs sample] h2 h3 o by auto
qed

text \<open>
  C7, as stated: a call to \<open>Report\<close> leaves every field of the \<open>Zipf\<close> unchanged, and
  two successive calls on the same table and limit write the same lines. \<open>Report\<close>
  appends its selection to the field \<open>collection\<close> and sorts it there: on the table
  \<open>{a: 1}\<close> the first call writes one line and leaves one entry in \<open>collection\<close>; the
  second call, on an emptied sink, writes that line twice.
\<close>

theorem Report_twice_differs:
  "collection one_a = []
   \<and> collection (fst (Report record_write [(''a'', 1)] one_a)) = [\<lparr>Word = ''a'', Count = 1\<rparr>]
   \<and> out (fst (Report record_write [(''a'', 1)] one_a)) = [''a 1'' @ [CHR 0x0A]]
   \<and> out (fst (Report record_write [(''a'', 1)]
             ((fst (Report record_write [(''a'', 1)] one_a))\<lparr>out := []\<rparr>))) =
       [''a 1'' @ [CHR 0x0A], ''a 1'' @ [CHR 0x0A]]"
  by (simp add: Report_def one_a_def fresh_def ByCountAsc_Less_def
      Fprintf_def record_write_def format_line_def fmt_d_def dec_nat.simps digit_def)

text \<open>
  C7, amended: a call to \<open>Report\<close> leaves the fields \<open>path\<close>, \<open>limit\<close>, \<open>symbols\<close>,
  \<open>words\<close> and \<open>counts\<close> unchanged. It does keep state: it stores its selection,
  sorted, in the field \<open>collection\<close>, and the sink receives one line per element of the
  stored \<open>collection\<close>. On a \<open>Zipf\<close> whose \<open>collection\<close> is empty the stored selection
  is the first \<open>limit\<close> entries of the iteration, sorted by count.
\<close>

theorem Report_frame:
  "path (fst (Report wr kvs z)) = path z
   \<and> limit (fst (Report wr kvs z)) = limit z
   \<and> symbols (fst (Report wr kvs z)) = symbols z
   \<and> words (fst (Report wr kvs z)) = words z
   \<and> counts (fst (Report wr kvs z)) = counts z
   \<and> out (fst (Report wr kvs z)) = write_all wr (out z) (collection (fst (Report wr kvs z)))
   \<and> (collection z = [] \<longrightarrow>
        collection (fst (Report wr kvs z)) =
          Sort ByCountAsc_Less
            (map (\<lambda>(k, c). \<lparr>Word = k, Count = c\<rparr>) (take (nat (limit z)) kvs)))"
  by (simp add: Report_def Let_def select_take)

theorem Report_frame_witness:
  "collection one_a = []
   \<and> words (fst (Report record_write [(''a'', 1)] one_a)) = words one_a
   \<and> limit (fst (Report record_write [(''a'', 1)] one_a)) = 10
   \<and> collection (fst (Report record_write [(''a'', 1)] one_a)) = [\<lparr>Word = ''a'', Count = 1\<rparr>]"
  using Report_frame [of record_write "[(''a'', 1)]" one_a]
  by (simp add: one_a_def fresh_def)

text \<open>
  C10: \<open>Report\<close> returns nil for every table, limit and sink: the results of the
  formatted writes are dropped, so a sink whose writes fail does not make \<open>Report\<close> fail.
\<close>

theorem Report_returns_nil: "snd (Report wr kvs z) = None"
  by (simp add: Report_def Let_def)

theorem Report_returns_nil_witness:
  "Fprintf broken_write [] \<lparr>Word = ''the'', Count = 3\<rparr> = ([], 0, Some (IOError ''closed pipe''))
   \<and> snd (Report broken_write sample_kvs sample) = None"
  using Report_returns_nil [of broken_write sample_kvs sample]
  by (simp add: Fprintf_def broken_write_def)

subsection \<open>Walk\<close>

text \<open>
  C8, as stated: when \<open>SplitWord\<close> fails on a line and symbols are counted,
  \<open>SplitSymbol\<close> still runs on that line and its tokens are added. With symbols on, a
  \<open>SplitWord\<close> that fails and a \<open>SplitSymbol\<close> that yields \<open>!\<close>, the walk of one file
  with one line returns nil and the table has no entry for \<open>!\<close>.
\<close>

theorem Walk_drops_symbols_on_SplitWord_error:
  "symbols with_symbols
   \<and> SplitWord_fails ''hi!'' = Inl (IOError ''split'')
   \<and> SplitSymbol_bang ''hi!'' = Inr [''!'']
   \<and> snd (Walk SplitWord_fails SplitSymbol_bang with_symbols [text_file [''hi!'']]) = None
   \<and> words (fst (Walk SplitWord_fails SplitSymbol_bang with_symbols [text_file [''hi!'']])) ''!''
       = None"
  by (simp add: with_symbols_def fresh_def SplitWord_fails_def SplitSymbol_bang_def
      text_file_def walkFn_def readLines_def)

text \<open>
  C8, amended: when \<open>SplitWord\<close> fails on a non-empty line, the walk does not abort and
  the line is skipped as a whole: \<open>SplitSymbol\<close> is not applied to it, none of its
  tokens is added, and the loop goes on with the next line, whatever \<open>SplitSymbol\<close> and
  the symbols flag are.
\<close>

theorem Walk_skips_line_on_SplitWord_error:
  "line \<noteq> '''' \<Longrightarrow> SplitWord line = Inl err \<Longrightarrow>
   lines_loop SplitWord SplitSymbol z (line # rest) = lines_loop SplitWord SplitSymbol z rest"
  by simp

theorem Walk_skips_line_on_SplitWord_error_witness:
  "''hi!'' \<noteq> '''' \<and> SplitWord_fails ''hi!'' = Inl (IOError ''split'')
   \<and> lines_loop SplitWord_fails SplitSymbol_bang with_symbols [''hi!'', ''x'']
       = lines_loop SplitWord_fails SplitSymbol_bang with_symbols [''x'']
   \<and> lines_loop SplitWord_fails SplitSymbol_bang with_symbols [''hi!''] = (with_symbols, None)"
proof -
  have h1: "''hi!'' \<noteq> ''''" by simp
  have h2: "SplitWord_fails ''hi!'' = Inl (IOError ''split'')"
    by (simp add: SplitWord_fails_def)
  show ?thesis
    using Walk_skips_line_on_SplitWord_error
        [of "''hi!''" SplitWord_fails "IOError ''split''" SplitSymbol_bang with_symbols "[''x'']"]
      Walk_skips_line_on_SplitWord_error
        [of "''hi!''" SplitWord_fails "IOError ''split''" SplitSymbol_bang with_symbols "[]"]
      h1 h2
    by simp
qed

text \<open>
  C9: when a token handed to \<open>Add\<close> is empty, \<open>Walk\<close> stops at once and returns the
  error of \<open>Add\<close>: the result is the state after the tokens before the empty one and
  that error, whatever tokens, lines and files follow. The entries \<open>es0\<close> and the lines
  \<open>ls1\<close> before the failing line have been processed without error; the empty token
  is among the words of the line, or among its symbols when symbols are counted.
\<close>

theorem Walk_aborts_on_empty_token:
  assumes "Walk SplitWord SplitSymbol z0 es0 = (z, None)"
    and "info e \<noteq> Some (FileInfo True)"
    and "readLines (content e) = (ls1 @ line # ls2, None)"
    and "lines_loop SplitWord SplitSymbol z ls1 = (z1, None)"
    and "line \<noteq> ''''"
  shows "(SplitWord line = Inr (pre @ '''' # post) \<and> '''' \<notin> set pre \<longrightarrow>
            Walk SplitWord SplitSymbol z0 (es0 @ e # es) =
              (fst (AddAll z1 pre), Some EmptyWord))
       \<and> (SplitWord line = Inr ws \<and> '''' \<notin> set ws \<and> symbols z1
            \<and> SplitSymbol line = Inr (pre @ '''' # post) \<and> '''' \<notin> set pre \<longrightarrow>
            Walk SplitWord SplitSymbol z0 (es0 @ e # es) =
              (fst (AddAll (fst (AddAll z1 ws)) pre), Some EmptyWord))"
proof (intro conjI impI)
  assume h: "SplitWord line = Inr (pre @ '''' # post) \<and> '''' \<notin> set pre"
  have "lines_loop SplitWord SplitSymbol z1 (line # ls2) = (fst (AddAll z1 pre), Some EmptyWord)"
    using assms(5) h by (intro lines_loop_word_failure) auto
  then show "Walk SplitWord SplitSymbol z0 (es0 @ e # es) = (fst (AddAll z1 pre), Some EmptyWord)"
    by (rule Walk_abort [OF assms(1-4)])
next
  assume h: "SplitWord line = Inr ws \<and> '''' \<notin> set ws \<and> symbols z1
      \<and> SplitSymbol line = Inr (pre @ '''' # post) \<and> '''' \<notin> set pre"
  have "lines_loop SplitWord SplitSymbol z1 (line # ls2) =
      (fst (AddAll (fst (AddAll z1 ws)) pre), Some EmptyWord)"
    using assms(5) h by (intro lines_loop_symbol_failure) auto
  then show "Walk SplitWord SplitSymbol z0 (es0 @ e # es) =
      (fst (AddAll (fst (AddAll z1 ws)) pre), Some EmptyWord)"
    by (rule Walk_abort [OF assms(1-4)])
qed

theorem Walk_aborts_on_empty_token_witness:
  "Walk SplitWord_gap SplitSymbol_bang fresh [] = (fresh, None)
   \<and> info (text_file [''a  b'', ''c'']) \<noteq> Some (FileInfo True)
   \<and> readLines (content (text_file [''a  b'', ''c''])) = ([] @ ''a  b'' # [''c''], None)
   \<and> lines_loop SplitWord_gap SplitSymbol_bang fresh [] = (fresh, None)
   \<and> SplitWord_gap ''a  b'' = Inr ([''a''] @ '''' # [''b''])
   \<and> Walk SplitWord_gap SplitSymbol_bang fresh ([] @ text_file [''a  b'', ''c''] # [text_file [''d'']])
       = (fresh\<lparr>words := [''a'' \<mapsto> 1]\<rparr>, Some EmptyWord)"
proof -
  have h1: "Walk SplitWord_gap SplitSymbol_bang fresh [] = (fresh, None)" by simp
  have h2: "info (text_file [''a  b'', ''c'']) \<noteq> Some (FileInfo True)"
    by (simp add: text_file_def)
  have h3: "readLines (content (text_file [''a  b'', ''c''])) = ([] @ ''a  b'' # [''c''], None)"
    by (simp add: text_file_def readLines_def)
  have h4: "lines_loop SplitWord_gap SplitSymbol_bang fresh [] = (fresh, None)" by simp
  have h5: "''a  b'' \<noteq> ''''" by simp
  have h6: "SplitWord_gap ''a  b'' = Inr ([''a''] @ '''' # [''b''])"
    by (simp add: SplitWord_gap_def)
  have r: "fst (AddAll fresh [''a'']) = fresh\<lparr>words := [''a'' \<mapsto> 1]\<rparr>"
    by (simp add: Add_def fresh_def)
  show ?thesis
    using Walk_aborts_on_empty_token [OF h1 h2 h3 h4 h5,
        of "[''a'']" "[''b'']" "[text_file [''d'']]" "[]"] h1 h2 h3 h4 h6 r
    by simp
qed


end
